theory Spec2Isabelle
  imports Complex_Main "HOL-Library.Word"
begin

section \<open>The C++ number types of \<open>interop.cpp\<close>\<close>

text \<open>
  The function under verification is

  \<^verbatim>\<open>double example_cpp_function(int input, const std::vector<double>& data) {
      double sum = std::accumulate(data.begin(), data.end(), 0.0);
      return static_cast<double>(input) * sum;
  }\<close>

  Its arithmetic is the arithmetic of the C++ type \<open>double\<close>. The model fixes what every
  mainstream ABI fixes: \<open>double\<close> is IEEE 754 binary64, evaluated in binary64 (no extended
  intermediate precision) under the default rounding mode, round to nearest with ties to
  even; \<open>int\<close> is a 32-bit two's complement integer.
\<close>

subsection \<open>binary64 data\<close>

text \<open>
  A binary64 datum is a NaN, an infinity with its sign, or a finite number with its sign.
  Every finite binary64 number is an integer multiple of \<open>2^-1074\<close>, the smallest
  subnormal, so a finite number is held as its sign bit (\<open>True\<close>: negative) and its
  magnitude counted in units of \<open>2^-1074\<close>. The two zeros are \<open>Finite False 0\<close> and
  \<open>Finite True 0\<close>. NaN payloads are not distinguished.
\<close>

datatype double = NaN | Infinity bool | Finite bool nat

definition pzero :: double where
  \<comment> \<open>the literal \<open>0.0\<close>\<close>
  "pzero = Finite False 0"

definition DBL_MAX_mag :: nat where
  \<comment> \<open>the magnitude of the largest finite double, \<open>(2^53 - 1) * 2^971\<close>, in units\<close>
  "DBL_MAX_mag = (2 ^ 53 - 1) * 2 ^ 2045"

definition DBL_MAX :: double where
  "DBL_MAX = Finite False DBL_MAX_mag"

fun is_finite :: "double \<Rightarrow> bool" where
  "is_finite (Finite s a) = True"
| "is_finite (Infinity s) = False"
| "is_finite NaN = False"

fun valof :: "double \<Rightarrow> real option" where
  \<comment> \<open>the real number a finite double stands for\<close>
  "valof (Finite s a) = Some ((if s then - 1 else 1) * real a / 2 ^ 1074)"
| "valof (Infinity s) = None"
| "valof NaN = None"

fun feq :: "double \<Rightarrow> double \<Rightarrow> bool" where
  \<comment> \<open>the comparison \<open>==\<close> of doubles: a NaN equals nothing, the two zeros are equal\<close>
  "feq NaN y = False"
| "feq x NaN = False"
| "feq (Infinity s) (Infinity t) = (s = t)"
| "feq (Infinity s) (Finite t b) = False"
| "feq (Finite s a) (Infinity t) = False"
| "feq (Finite s a) (Finite t b) = (a = b \<and> (s = t \<or> a = 0))"

text \<open>
  The 64 bits of a double, read as the standard lays them out: sign bit 63, biased
  exponent in bits 62..52, fraction in bits 51..0.
\<close>

definition double_of_bits :: "64 word \<Rightarrow> double" where
  "double_of_bits w =
     (let s = bit w 63;
          e = unat (take_bit 11 (drop_bit 52 w));
          f = unat (take_bit 52 w)
      in if e = 2047 then (if f = 0 then Infinity s else NaN)
         else if e = 0 then Finite s f
         else Finite s ((2 ^ 52 + f) * 2 ^ (e - 1)))"

subsection \<open>Rounding to nearest, ties to even\<close>

fun bitlen :: "nat \<Rightarrow> nat" where
  \<comment> \<open>the number of binary digits of a number\<close>
  "bitlen n = (if n = 0 then 0 else Suc (bitlen (n div 2)))"

declare bitlen.simps [simp del]

definition round_shift :: "nat \<Rightarrow> nat \<Rightarrow> nat" where
  \<comment> \<open>\<open>n / 2^s\<close> rounded to the nearest integer, a tie to the even one\<close>
  "round_shift n s =
     (let q = n div 2 ^ s; r = n mod 2 ^ s
      in if 2 * r < 2 ^ s then q
         else if 2 ^ s < 2 * r then q + 1
         else if even q then q else q + 1)"

definition round_scaled :: "nat \<Rightarrow> nat \<Rightarrow> nat" where
  \<comment> \<open>The exact magnitude \<open>p * 2^-(1074 + e)\<close> rounded to a binary64 magnitude, in units of
      \<open>2^-1074\<close>: 53 significant bits are kept, and nothing below the unit.\<close>
  "round_scaled e p =
     (let s = max (bitlen p - 53) e in round_shift p s * 2 ^ (s - e))"

definition round_result :: "bool \<Rightarrow> nat \<Rightarrow> nat \<Rightarrow> double" where
  \<comment> \<open>The rounded result with its sign; a rounded magnitude of \<open>2^1024\<close> or more
      overflows to the infinity of that sign.\<close>
  "round_result sg e p =
     (let m = round_scaled e p in if 2 ^ 2098 \<le> m then Infinity sg else Finite sg m)"

text \<open>
  The datatype is wider than the format: a binary64 magnitude has at most 53 significant
  bits and lies below \<open>2^1024\<close>. The theorems below hold for every value of the
  datatype, so for every double; \<open>is_binary64\<close> marks the values of the format.
\<close>

fun is_binary64 :: "double \<Rightarrow> bool" where
  "is_binary64 NaN = True"
| "is_binary64 (Infinity s) = True"
| "is_binary64 (Finite s a) = (a < 2 ^ 2098 \<and> 2 ^ (bitlen a - 53) dvd a)"

subsection \<open>Addition, multiplication and conversion from \<open>int\<close>\<close>

fun fadd :: "double \<Rightarrow> double \<Rightarrow> double" where
  \<comment> \<open>\<open>x + y\<close> on doubles\<close>
  "fadd NaN y = NaN"
| "fadd x NaN = NaN"
| "fadd (Infinity s) (Infinity t) = (if s = t then Infinity s else NaN)"
| "fadd (Infinity s) (Finite t b) = Infinity s"
| "fadd (Finite s a) (Infinity t) = Infinity t"
| "fadd (Finite s a) (Finite t b) =
     (if s = t then round_result s 0 (a + b)
      else if a = b then Finite False 0
      else if b < a then round_result s 0 (a - b)
      else round_result t 0 (b - a))"

fun fmul :: "double \<Rightarrow> double \<Rightarrow> double" where
  \<comment> \<open>\<open>x * y\<close> on doubles\<close>
  "fmul NaN y = NaN"
| "fmul x NaN = NaN"
| "fmul (Infinity s) (Infinity t) = Infinity (s \<noteq> t)"
| "fmul (Infinity s) (Finite t b) = (if b = 0 then NaN else Infinity (s \<noteq> t))"
| "fmul (Finite s a) (Infinity t) = (if a = 0 then NaN else Infinity (s \<noteq> t))"
| "fmul (Finite s a) (Finite t b) = round_result (s \<noteq> t) 1074 (a * b)"

definition double_of_int :: "int \<Rightarrow> double" where
  \<comment> \<open>conversion of an integer value to double\<close>
  "double_of_int i = round_result (i < 0) 0 (nat \<bar>i\<bar> * 2 ^ 1074)"

definition static_cast_double :: "32 word \<Rightarrow> double" where
  \<comment> \<open>\<open>static_cast<double>(input)\<close> for \<open>int input\<close>\<close>
  "static_cast_double input = double_of_int (sint input)"

section \<open>The function\<close>

text \<open>
  \<open>std::accumulate(first, last, init)\<close> is the loop
  \<^verbatim>\<open>for (; first != last; ++first) init = init + *first; return init;\<close>
  The iterators into \<open>data\<close> are positions (\<open>lst\<close> stands for \<open>last\<close>, \<open>sm\<close>
  below for \<open>sum\<close>); dereferencing a position outside the vector has no defined result,
  and neither has a loop that never reaches \<open>last\<close>: both are \<open>None\<close>.
\<close>

partial_function (option) accumulate :: "double list \<Rightarrow> nat \<Rightarrow> nat \<Rightarrow> double \<Rightarrow> double option" where
  "accumulate data first lst init =
     (if first \<noteq> lst then
        (if first < length data
         then accumulate data (Suc first) lst (fadd init (data ! first))
         else None)
      else Some init)"

declare accumulate.simps [code]

definition example_cpp_function :: "32 word \<Rightarrow> double list \<Rightarrow> double option" where
  "example_cpp_function input data =
     (case accumulate data 0 (length data) pzero of
        None \<Rightarrow> None
      | Some sm \<Rightarrow> Some (fmul (static_cast_double input) sm))"

section \<open>The contract, in the words of the specification\<close>

text \<open>
  \<open>scale_sum(multiplier, values)\<close>: the left-to-right fold of the sequence with
  floating-point addition, starting from \<open>0.0\<close>, followed by one multiplication by the
  multiplier converted to double. The multiplier is an integer of any size here.
\<close>

definition scale_sum :: "int \<Rightarrow> double list \<Rightarrow> double" where
  "scale_sum m vals = fmul (double_of_int m) (foldl fadd pzero vals)"

section \<open>The loop of \<open>std::accumulate\<close>\<close>

lemma accumulate_from:
  "first \<le> length data \<Longrightarrow>
   accumulate data first (length data) init = Some (foldl fadd init (drop first data))"
proof (induction "length data - first" arbitrary: first init)
  case 0
  then have "first = length data" by simp
  then show ?case by (subst accumulate.simps) simp
next
  case (Suc k)
  then have lt: "first < length data" by simp
  have step: "accumulate data first (length data) init =
      accumulate data (Suc first) (length data) (fadd init (data ! first))"
    using lt by (subst accumulate.simps) simp
  have "k = length data - Suc first" using Suc.hyps(2) by simp
  then have "accumulate data (Suc first) (length data) (fadd init (data ! first)) =
      Some (foldl fadd (fadd init (data ! first)) (drop (Suc first) data))"
    using Suc.hyps(1) lt by simp
  moreover have "drop first data = data ! first # drop (Suc first) data"
    using lt by (simp add: Cons_nth_drop_Suc)
  ultimately show ?case using step by simp
qed

lemma example_cpp_function_fold:
  "example_cpp_function input data =
     Some (fmul (static_cast_double input) (foldl fadd pzero data))"
  using accumulate_from [of 0 data pzero] by (simp add: example_cpp_function_def)

section \<open>Facts about rounding\<close>

lemma bitlen_0: "bitlen 0 = 0"
  by (simp add: bitlen.simps)

lemma bitlen_le: "n < 2 ^ k \<Longrightarrow> bitlen n \<le> k"
proof (induction k arbitrary: n)
  case 0
  then show ?case by (simp add: bitlen.simps)
next
  case (Suc k)
  show ?case
  proof (cases "n = 0")
    case True
    then show ?thesis by (simp add: bitlen.simps)
  next
    case False
    have "n div 2 < 2 ^ k" using Suc.prems by simp
    then have "bitlen (n div 2) \<le> k" by (rule Suc.IH)
    then show ?thesis using False by (subst bitlen.simps) simp
  qed
qed

lemma bitlen_ge: "2 ^ k \<le> n \<Longrightarrow> Suc k \<le> bitlen n"
proof (induction k arbitrary: n)
  case 0
  then show ?case by (subst bitlen.simps) simp
next
  case (Suc k)
  have "n \<noteq> 0" using Suc.prems by (intro notI) simp
  have "2 ^ k \<le> n div 2" using Suc.prems by simp
  then have "Suc k \<le> bitlen (n div 2)" by (rule Suc.IH)
  then show ?case using \<open>n \<noteq> 0\<close> by (subst bitlen.simps) simp
qed

lemma bitlen_eq: "2 ^ k \<le> n \<Longrightarrow> n < 2 ^ Suc k \<Longrightarrow> bitlen n = Suc k"
  using bitlen_le [of n "Suc k"] bitlen_ge [of k n] by simp

lemma lt_pow_bitlen: "n < 2 ^ bitlen n"
proof (induction n rule: bitlen.induct)
  case (1 n)
  show ?case
  proof (cases "n = 0")
    case True
    then show ?thesis by simp
  next
    case False
    then have "n div 2 < 2 ^ bitlen (n div 2)" by (rule "1.IH")
    then have "n < 2 * 2 ^ bitlen (n div 2)" by simp
    then show ?thesis using False by (subst bitlen.simps) simp
  qed
qed

lemma round_shift_dvd: "2 ^ s dvd n \<Longrightarrow> round_shift n s * 2 ^ s = n"
  by (auto simp: round_shift_def Let_def)

text \<open>The rounded quotient is within half a unit of the exact one.\<close>

lemma round_shift_nearest:
  "2 * (round_shift n s * 2 ^ s - n) \<le> 2 ^ s \<and> 2 * (n - round_shift n s * 2 ^ s) \<le> 2 ^ s"
proof -
  define q where "q = n div 2 ^ s"
  define r where "r = n mod 2 ^ s"
  define m where "m = round_shift n s"
  have n: "n = q * 2 ^ s + r" unfolding q_def r_def by (rule div_mult_mod_eq [symmetric])
  have r: "r < 2 ^ s" by (simp add: r_def)
  have m: "m = (if 2 * r < 2 ^ s then q else if 2 ^ s < 2 * r then q + 1
      else if even q then q else q + 1)"
    by (simp add: m_def round_shift_def Let_def q_def r_def)
  have "2 * (m * 2 ^ s - (q * 2 ^ s + r)) \<le> 2 ^ s \<and> 2 * (q * 2 ^ s + r - m * 2 ^ s) \<le> 2 ^ s"
    unfolding m using r by (auto simp: algebra_simps)
  then show ?thesis unfolding m_def [symmetric] n [symmetric] .
qed

lemma round_shift_le: "round_shift p s \<le> Suc (p div 2 ^ s)"
  by (simp add: round_shift_def Let_def)

lemma round_scaled_0: "round_scaled e 0 = 0"
  by (simp add: round_scaled_def round_shift_def Let_def)

lemma round_scaled_dvd:
  assumes "2 ^ (max (bitlen p - 53) e) dvd p"
  shows "round_scaled e p * 2 ^ e = p"
proof -
  let ?s = "max (bitlen p - 53) e"
  have "round_scaled e p * 2 ^ e = round_shift p ?s * (2 ^ (?s - e) * 2 ^ e)"
    by (simp add: round_scaled_def Let_def)
  also have "(2::nat) ^ (?s - e) * 2 ^ e = 2 ^ ?s"
    by (simp add: power_add [symmetric])
  finally show ?thesis using round_shift_dvd [OF assms] by simp
qed

lemma round_scaled_exact:
  assumes "2 ^ (bitlen n - 53) dvd n"
  shows "round_scaled 0 n = n"
  using round_scaled_dvd [of n 0] assms by simp

lemma round_scaled_eval:
  "2 ^ k \<le> p \<Longrightarrow> p < 2 ^ Suc k \<Longrightarrow>
   round_scaled e p = round_shift p (max (Suc k - 53) e) * 2 ^ (max (Suc k - 53) e - e)"
  using bitlen_eq [of k p] by (simp add: round_scaled_def Let_def)

text \<open>A magnitude with at most 53 significant bits is not changed by rounding.\<close>

lemma round_scaled_small:
  assumes "a < 2 ^ 53"
  shows "round_scaled 0 (a * 2 ^ k) = a * 2 ^ k"
proof (rule round_scaled_exact)
  have "a * 2 ^ k < 2 ^ 53 * 2 ^ k" using assms by simp
  then have "a * 2 ^ k < 2 ^ (53 + k)" by (simp only: power_add)
  then have "bitlen (a * 2 ^ k) \<le> 53 + k" by (rule bitlen_le)
  then have "bitlen (a * 2 ^ k) - 53 \<le> k" by simp
  then have "(2::nat) ^ (bitlen (a * 2 ^ k) - 53) dvd 2 ^ k"
    by (rule le_imp_power_dvd)
  then show "2 ^ (bitlen (a * 2 ^ k) - 53) dvd a * 2 ^ k"
    by (rule dvd_mult)
qed

lemma round_result_small:
  assumes "a < 2 ^ 53" and "a * 2 ^ k < 2 ^ 2098"
  shows "round_result sg 0 (a * 2 ^ k) = Finite sg (a * 2 ^ k)"
  using assms(2) by (simp add: round_result_def round_scaled_small [OF assms(1)])

lemma round_result_overflow:
  assumes "a < 2 ^ 53" and "2 ^ 2098 \<le> a * 2 ^ k"
  shows "round_result sg 0 (a * 2 ^ k) = Infinity sg"
  using assms(2) by (simp add: round_result_def round_scaled_small [OF assms(1)])

lemma round_result_product_small:
  assumes "a < 2 ^ 53" and "a * 2 ^ k < 2 ^ 2098"
  shows "round_result sg 1074 (a * 2 ^ (k + 1074)) = Finite sg (a * 2 ^ k)"
proof -
  let ?p = "a * 2 ^ (k + 1074)"
  have "?p < 2 ^ 53 * 2 ^ (k + 1074)" using assms(1) by simp
  then have "?p < 2 ^ (53 + (k + 1074))" by (simp only: power_add)
  then have "bitlen ?p \<le> 53 + (k + 1074)" by (rule bitlen_le)
  then have "max (bitlen ?p - 53) 1074 \<le> k + 1074" by simp
  then have "(2::nat) ^ max (bitlen ?p - 53) 1074 dvd 2 ^ (k + 1074)"
    by (rule le_imp_power_dvd)
  then have "2 ^ max (bitlen ?p - 53) 1074 dvd ?p" by (rule dvd_mult)
  then have "round_scaled 1074 ?p * 2 ^ 1074 = ?p" by (rule round_scaled_dvd)
  also have "?p = (a * 2 ^ k) * 2 ^ 1074" by (simp only: power_add mult.assoc)
  finally have "round_scaled 1074 ?p = a * 2 ^ k" by simp
  then show ?thesis using assms(2) by (simp add: round_result_def)
qed

lemma round_result_not_NaN: "round_result sg e p \<noteq> NaN"
  by (simp add: round_result_def Let_def)

section \<open>The operations stay inside the format\<close>

lemma round_shift_bound: "round_shift p (max (bitlen p - 53) e) \<le> 2 ^ 53"
proof -
  let ?s = "max (bitlen p - 53) e"
  have "bitlen p \<le> 53 + ?s" by simp
  then have "(2::nat) ^ bitlen p \<le> 2 ^ (53 + ?s)" by (rule power_increasing) simp
  then have "p < 2 ^ 53 * 2 ^ ?s"
    using lt_pow_bitlen [of p] by (simp add: power_add)
  then have "p div 2 ^ ?s < 2 ^ 53"
    by (simp add: less_mult_imp_div_less)
  then show ?thesis using round_shift_le [of p ?s] by simp
qed

lemma dvd_53_bits:
  assumes "q \<le> 2 ^ 53"
  shows "2 ^ (bitlen (q * 2 ^ k) - 53) dvd q * 2 ^ k"
proof (cases "q = 2 ^ 53")
  case True
  have "(2::nat) ^ (53 + k) < 2 ^ Suc (53 + k)" by simp
  then have "bitlen (2 ^ (53 + k)) = Suc (53 + k)"
    by (intro bitlen_eq) simp_all
  then have "bitlen (q * 2 ^ k) - 53 = Suc k" using True by (simp add: power_add)
  moreover have "(2::nat) ^ Suc k dvd 2 ^ (53 + k)" by (rule le_imp_power_dvd) simp
  ultimately show ?thesis using True by (simp add: power_add)
next
  case False
  then have "q < 2 ^ 53" using assms by simp
  then have "q * 2 ^ k < 2 ^ 53 * 2 ^ k" by simp
  then have "q * 2 ^ k < 2 ^ (53 + k)" by (simp only: power_add)
  then have "bitlen (q * 2 ^ k) \<le> 53 + k" by (rule bitlen_le)
  then have "bitlen (q * 2 ^ k) - 53 \<le> k" by simp
  then have "(2::nat) ^ (bitlen (q * 2 ^ k) - 53) dvd 2 ^ k" by (rule le_imp_power_dvd)
  then show ?thesis by (rule dvd_mult)
qed

lemma round_result_binary64: "is_binary64 (round_result sg e p)"
  using dvd_53_bits [OF round_shift_bound [of p e]]
  by (simp add: round_result_def round_scaled_def Let_def)

lemma fadd_binary64: "is_binary64 (fadd x y)"
  by (cases x; cases y) (simp_all add: round_result_binary64 bitlen_0)

lemma fmul_binary64: "is_binary64 (fmul x y)"
  by (cases x; cases y) (simp_all add: round_result_binary64)

lemma double_of_int_binary64: "is_binary64 (double_of_int i)"
  by (simp add: double_of_int_def round_result_binary64)

lemma double_of_bits_binary64: "is_binary64 (double_of_bits w)"
proof -
  define e where "e = unat (take_bit 11 (drop_bit 52 w))"
  define f where "f = unat (take_bit 52 w)"
  have f: "f < 2 ^ 52"
    unfolding f_def unsigned_take_bit_eq by (rule take_bit_nat_less_exp)
  have e: "e < 2 ^ 11"
    unfolding e_def unsigned_take_bit_eq by (rule take_bit_nat_less_exp)
  have sub: "is_binary64 (Finite s f)" for s
  proof -
    have "f < 2 ^ 2098" using f by (rule less_trans) simp
    moreover have "2 ^ (bitlen (f * 2 ^ 0) - 53) dvd f * 2 ^ 0"
      using f by (intro dvd_53_bits) simp
    ultimately show ?thesis by simp
  qed
  have nrm: "is_binary64 (Finite s ((2 ^ 52 + f) * 2 ^ (e - 1)))" if "e \<noteq> 2047" for s
  proof -
    have q: "2 ^ 52 + f < 2 ^ 53" using f by simp
    have "e - 1 \<le> 2045" using e that by simp
    then have "(2::nat) ^ (e - 1) \<le> 2 ^ 2045" by (rule power_increasing) simp
    then have "(2 ^ 52 + f) * 2 ^ (e - 1) < 2 ^ 53 * 2 ^ 2045"
      using q by (intro mult_less_le_imp_less) simp_all
    also have "(2::nat) ^ 53 * 2 ^ 2045 = 2 ^ 2098" by (simp only: power_add [symmetric]) simp
    finally show ?thesis using dvd_53_bits [of "2 ^ 52 + f" "e - 1"] q by simp
  qed
  show ?thesis
    unfolding double_of_bits_def Let_def e_def [symmetric] f_def [symmetric]
    using sub nrm by simp
qed

section \<open>Facts about the conversion, the sum and the product\<close>

text \<open>Every integer below \<open>2^53\<close> in magnitude converts to double exactly.\<close>

lemma double_of_int_exact:
  assumes "\<bar>i\<bar> < 2 ^ 53"
  shows "double_of_int i = Finite (i < 0) (nat \<bar>i\<bar> * 2 ^ 1074)"
proof -
  have a: "nat \<bar>i\<bar> < 2 ^ 53" using assms by (simp add: nat_less_iff)
  then have "nat \<bar>i\<bar> * 2 ^ 1074 < 2 ^ 53 * (2::nat) ^ 1074" by simp
  also have "\<dots> < 2 ^ 2098" by (simp only: power_add [symmetric]) simp
  finally show ?thesis
    unfolding double_of_int_def using a by (rule round_result_small [rotated])
qed

lemma valof_units:
  "valof (Finite (i < 0) (nat \<bar>i\<bar> * 2 ^ 1074)) = Some (real_of_int i)"
  by simp

lemma static_cast_double_exact:
  "static_cast_double input = Finite (sint input < 0) (nat \<bar>sint input\<bar> * 2 ^ 1074)"
proof -
  have "\<bar>sint input\<bar> \<le> 2 ^ 31"
    using sint_range_size [of input] by (simp add: word_size abs_le_iff)
  also have "\<dots> < (2::int) ^ 53" by simp
  finally show ?thesis
    unfolding static_cast_double_def by (rule double_of_int_exact)
qed

lemma fadd_NaN_right: "fadd x NaN = NaN"
  by (cases x) simp_all

lemma fmul_NaN_right: "fmul x NaN = NaN"
  by (cases x) simp_all

lemma foldl_fadd_NaN: "foldl fadd NaN xs = NaN"
  by (induction xs) simp_all

lemma foldl_fadd_has_NaN: "NaN \<in> set xs \<Longrightarrow> foldl fadd a xs = NaN"
  by (induction xs arbitrary: a) (auto simp: fadd_NaN_right foldl_fadd_NaN)

lemma fmul_zero_finite: "fmul (Finite s 0) (Finite t b) = Finite (s \<noteq> t) 0"
  by (simp add: round_result_def round_scaled_0)

lemma is_finite_iff:
  "is_finite x \<longleftrightarrow> x \<noteq> NaN \<and> x \<noteq> Infinity False \<and> x \<noteq> Infinity True"
  by (cases x) auto

lemma fadd_PInf_stays:
  "x \<noteq> NaN \<Longrightarrow> x \<noteq> Infinity True \<Longrightarrow> fadd (Infinity False) x = Infinity False"
  by (cases x) auto

lemma foldl_fadd_PInf:
  "NaN \<notin> set xs \<Longrightarrow> Infinity True \<notin> set xs \<Longrightarrow>
   foldl fadd (Infinity False) xs = Infinity False"
  by (induction xs) (auto simp: fadd_PInf_stays)

lemma fadd_finite_not_NaN: "a \<noteq> NaN \<Longrightarrow> is_finite x \<Longrightarrow> fadd a x \<noteq> NaN"
  by (cases a; cases x) (simp_all add: round_result_not_NaN)

lemma foldl_fadd_finite_not_NaN:
  "a \<noteq> NaN \<Longrightarrow> list_all is_finite xs \<Longrightarrow> foldl fadd a xs \<noteq> NaN"
  by (induction xs arbitrary: a) (simp_all add: fadd_finite_not_NaN)

lemma fadd_to_PInf:
  "a \<noteq> NaN \<Longrightarrow> a \<noteq> Infinity True \<Longrightarrow> fadd a (Infinity False) = Infinity False"
  by (cases a) auto

lemma fmul_pos_PInf:
  assumes "0 < sint input"
  shows "fmul (static_cast_double input) (Infinity False) = Infinity False"
  using assms by (simp add: static_cast_double_exact)

lemma split_at_first:
  assumes "y \<in> set xs"
  shows "xs = takeWhile (\<lambda>x. x \<noteq> y) xs @ y # tl (dropWhile (\<lambda>x. x \<noteq> y) xs)"
proof -
  have ne: "dropWhile (\<lambda>x. x \<noteq> y) xs \<noteq> []" using assms by simp
  then have "hd (dropWhile (\<lambda>x. x \<noteq> y) xs) = y"
    using hd_dropWhile [of "\<lambda>x. x \<noteq> y" xs] by simp
  then have "dropWhile (\<lambda>x. x \<noteq> y) xs = y # tl (dropWhile (\<lambda>x. x \<noteq> y) xs)"
    using ne by (metis list.collapse)
  then show ?thesis using takeWhile_dropWhile_id [of "\<lambda>x. x \<noteq> y" xs] by simp
qed

section \<open>Known results of binary64 arithmetic\<close>

text \<open>
  The bit patterns are those of \<open>DBL_MAX\<close>, \<open>1.0\<close>, \<open>0.5\<close>, \<open>0.1\<close>, \<open>0.2\<close> and of
  \<open>0.30000000000000004\<close>, which is what \<open>0.1 + 0.2\<close> rounds to.
\<close>

lemma DBL_MAX_bits: "double_of_bits 0x7FEFFFFFFFFFFFFF = DBL_MAX"
  by (simp add: double_of_bits_def DBL_MAX_def DBL_MAX_mag_def)

lemma DBL_MAX_binary64: "is_binary64 DBL_MAX"
  using double_of_bits_binary64 [of "0x7FEFFFFFFFFFFFFF"] by (simp only: DBL_MAX_bits)

lemma one_bits: "double_of_bits 0x3FF0000000000000 = double_of_int 1"
  by (simp add: double_of_bits_def double_of_int_exact)

lemma half_bits: "double_of_bits 0x3FE0000000000000 = Finite False (2 ^ 1073)"
  by (simp add: double_of_bits_def)

lemma tenth_plus_fifth:
  "fadd (double_of_bits 0x3FB999999999999A) (double_of_bits 0x3FC999999999999A) =
     double_of_bits 0x3FD3333333333334"
proof -
  have a: "double_of_bits 0x3FB999999999999A = Finite False (0x1999999999999A * 2 ^ 1018)"
    by (simp add: double_of_bits_def)
  have b: "double_of_bits 0x3FC999999999999A = Finite False (0x1999999999999A * 2 ^ 1019)"
    by (simp add: double_of_bits_def)
  have c: "double_of_bits 0x3FD3333333333334 = Finite False (0x13333333333334 * 2 ^ 1020)"
    by (simp add: double_of_bits_def)
  have d: "round_scaled 0 (0x1999999999999A * 2 ^ 1018 + 0x1999999999999A * 2 ^ 1019) =
      0x13333333333334 * 2 ^ 1020"
    by (subst round_scaled_eval [of 1072]) (simp_all add: round_shift_def Let_def)
  show ?thesis
    unfolding a b c fadd.simps round_result_def Let_def d by simp
qed

lemma fadd_pzero_DBL_MAX: "fadd pzero (Finite sg DBL_MAX_mag) = Finite sg DBL_MAX_mag"
proof -
  have "round_result sg 0 ((2 ^ 53 - 1) * 2 ^ 2045) = Finite sg ((2 ^ 53 - 1) * 2 ^ 2045)"
    by (rule round_result_small) simp_all
  moreover have "0 < DBL_MAX_mag" by (simp add: DBL_MAX_mag_def)
  ultimately show ?thesis by (cases sg) (simp_all add: pzero_def DBL_MAX_mag_def)
qed

lemma fadd_DBL_MAX_twice:
  "fadd (Finite sg DBL_MAX_mag) (Finite sg DBL_MAX_mag) = Infinity sg"
proof -
  have "round_result sg 0 ((2 ^ 53 - 1) * 2 ^ 2046) = Infinity sg"
    by (rule round_result_overflow) simp_all
  moreover have "DBL_MAX_mag + DBL_MAX_mag = (2 ^ 53 - 1) * 2 ^ 2046"
    by (simp add: DBL_MAX_mag_def)
  ultimately show ?thesis by simp
qed

text \<open>
  The two concrete scenarios of the specification:
  \<open>scale_sum(3, [1.0, 2.0, 3.0]) == 18.0\<close> and \<open>scale_sum(-2, [0.5, 0.5]) == -2.0\<close>.
\<close>

lemma scenario_18:
  "example_cpp_function 3 [double_of_int 1, double_of_int 2, double_of_int 3] =
     Some (double_of_int 18)"
  using round_result_small [of 1 1074 False] round_result_small [of 3 1074 False]
    round_result_small [of 6 1074 False] round_result_product_small [of 18 1074 False]
  by (simp add: example_cpp_function_fold static_cast_double_exact double_of_int_exact pzero_def)

lemma scenario_minus_2:
  "example_cpp_function (- 2)
      [double_of_bits 0x3FE0000000000000, double_of_bits 0x3FE0000000000000] =
     Some (double_of_int (- 2))"
  using round_result_small [of 1 1073 False] round_result_small [of 1 1074 False]
    round_result_product_small [of 2 1074 True]
  by (simp add: example_cpp_function_fold static_cast_double_exact double_of_int_exact
      pzero_def half_bits)

section \<open>The claims\<close>

text \<open>
  C1. For every \<open>int\<close> multiplier and every vector of doubles, the function returns the
  multiplier converted to double times the sum of the elements, the sum being the
  single-pass left-to-right floating-point fold from \<open>0.0\<close>, followed by one
  multiplication: the code computes what the contract \<open>scale_sum\<close> describes.
\<close>

theorem example_cpp_function_is_scale_sum:
  "example_cpp_function input data = Some (scale_sum (sint input) data)"
  unfolding scale_sum_def example_cpp_function_fold static_cast_double_def ..



text \<open>
  C3, as stated: a multiplier of 0 gives \<open>0.0\<close> for every sequence of finite doubles. It
  fails when the running sum overflows: \<open>DBL_MAX + DBL_MAX\<close> is \<open>+Infinity\<close>, and
  \<open>0.0 * +Infinity\<close> is a NaN, which compares equal to nothing.
\<close>

theorem zero_multiplier_overflow_nan:
  "is_binary64 DBL_MAX \<and> is_finite DBL_MAX \<and>
   example_cpp_function 0 [DBL_MAX, DBL_MAX] = Some NaN \<and> \<not> feq NaN pzero"
  using DBL_MAX_binary64
  by (simp add: example_cpp_function_fold DBL_MAX_def fadd_pzero_DBL_MAX fadd_DBL_MAX_twice
      static_cast_double_exact del: fadd.simps(7))

text \<open>
  C3, amended: for every sequence of finite doubles whose left-to-right sum is finite (the
  running sum has not overflowed to an infinity), a multiplier of 0 gives a zero, \<open>0.0\<close>
  or \<open>-0.0\<close>: a double that compares equal (\<open>==\<close>) to \<open>0.0\<close>.
\<close>

theorem zero_multiplier_finite_sum:
  assumes "list_all is_finite data" and "is_finite (foldl fadd pzero data)"
  shows "\<exists>z. example_cpp_function 0 data = Some z \<and> feq z pzero"
proof -
  obtain sg a where sm: "foldl fadd pzero data = Finite sg a"
    using assms(2) by (cases "foldl fadd pzero data") simp_all
  have "static_cast_double 0 = Finite False 0"
    by (simp add: static_cast_double_exact)
  then have "example_cpp_function 0 data = Some (Finite (False \<noteq> sg) 0)"
    by (simp only: example_cpp_function_fold sm fmul_zero_finite)
  then show ?thesis by (simp add: pzero_def)
qed

theorem zero_multiplier_finite_sum_witness:
  "list_all is_finite [double_of_int 1, double_of_int (- 3)] \<and>
   is_finite (foldl fadd pzero [double_of_int 1, double_of_int (- 3)]) \<and>
   (\<exists>z. example_cpp_function 0 [double_of_int 1, double_of_int (- 3)] = Some z \<and> feq z pzero)"
proof -
  let ?data = "[double_of_int 1, double_of_int (- 3)]"
  have h1: "list_all is_finite ?data" by (simp add: double_of_int_exact)
  have h2: "is_finite (foldl fadd pzero ?data)"
    using round_result_small [of 1 1074 False] round_result_small [of 2 1074 True]
    by (simp add: double_of_int_exact pzero_def)
  show ?thesis
    using h1 h2 zero_multiplier_finite_sum [OF h1 h2] by (intro conjI)
qed

text \<open>
  C4. If at least one element of the vector is a NaN, the result is a NaN, whatever the
  multiplier and the other elements are.
\<close>

theorem nan_propagates:
  "NaN \<in> set data \<Longrightarrow> example_cpp_function input data = Some NaN"
  by (simp add: example_cpp_function_fold foldl_fadd_has_NaN fmul_NaN_right)

theorem nan_propagates_witness:
  "NaN \<in> set [Infinity False, NaN, pzero] \<and>
   example_cpp_function 3 [Infinity False, NaN, pzero] = Some NaN"
  using nan_propagates [of "[Infinity False, NaN, pzero]" 3] by simp

text \<open>
  C5, as stated: a positive multiplier and a sequence that contains \<open>+Infinity\<close> and no
  \<open>-Infinity\<close> give \<open>+Infinity\<close>. It fails in two ways. The running sum of finite
  elements can reach \<open>-Infinity\<close> by overflow before it meets the \<open>+Infinity\<close>:
  \<open>[-DBL_MAX, -DBL_MAX, +Infinity]\<close> sums to a NaN. And a NaN element wins over the
  infinity: \<open>[+Infinity, NaN]\<close> sums to a NaN.
\<close>

theorem plus_infinity_not_returned:
  "0 < sint (1 :: 32 word) \<and>
   Infinity False \<in> set [Finite True DBL_MAX_mag, Finite True DBL_MAX_mag, Infinity False] \<and>
   Infinity True \<notin> set [Finite True DBL_MAX_mag, Finite True DBL_MAX_mag, Infinity False] \<and>
   example_cpp_function 1 [Finite True DBL_MAX_mag, Finite True DBL_MAX_mag, Infinity False]
     = Some NaN \<and>
   Infinity False \<in> set [Infinity False, NaN] \<and>
   Infinity True \<notin> set [Infinity False, NaN] \<and>
   example_cpp_function 1 [Infinity False, NaN] = Some NaN"
  by (simp add: example_cpp_function_fold fadd_pzero_DBL_MAX fadd_DBL_MAX_twice fmul_NaN_right
      fadd_NaN_right del: fadd.simps(7))

text \<open>
  C5, amended: for every positive \<open>int\<close> multiplier and every sequence that contains
  \<open>+Infinity\<close>, no \<open>-Infinity\<close> and no NaN, and whose running sum over the elements
  before the first \<open>+Infinity\<close> has not overflowed to \<open>-Infinity\<close>, the result is
  \<open>+Infinity\<close>.
\<close>

theorem plus_infinity_returned:
  assumes "0 < sint input"
    and "Infinity False \<in> set data"
    and "Infinity True \<notin> set data"
    and "NaN \<notin> set data"
    and "foldl fadd pzero (takeWhile (\<lambda>x. x \<noteq> Infinity False) data) \<noteq> Infinity True"
  shows "example_cpp_function input data = Some (Infinity False)"
proof -
  define pre where "pre = takeWhile (\<lambda>x. x \<noteq> Infinity False) data"
  define post where "post = tl (dropWhile (\<lambda>x. x \<noteq> Infinity False) data)"
  have data: "data = pre @ Infinity False # post"
    unfolding pre_def post_def using assms(2) by (rule split_at_first)
  have "set pre \<subseteq> set data" and post: "set post \<subseteq> set data"
    using data
    by (metis Un_upper1 set_append, metis Un_upper2 set_append set_subset_Cons subset_trans)
  have "\<forall>x \<in> set pre. is_finite x"
  proof
    fix x assume x: "x \<in> set pre"
    then have "x \<noteq> Infinity False" unfolding pre_def by (auto dest: set_takeWhileD)
    moreover have "x \<in> set data" using x \<open>set pre \<subseteq> set data\<close> by auto
    ultimately show "is_finite x" using assms(3,4) by (auto simp: is_finite_iff)
  qed
  then have "list_all is_finite pre" by (simp add: list_all_iff)
  then have "foldl fadd pzero pre \<noteq> NaN"
    by (intro foldl_fadd_finite_not_NaN) (simp_all add: pzero_def)
  moreover have "foldl fadd pzero pre \<noteq> Infinity True" using assms(5) by (simp add: pre_def)
  ultimately have "fadd (foldl fadd pzero pre) (Infinity False) = Infinity False"
    by (rule fadd_to_PInf)
  moreover have "NaN \<notin> set post" "Infinity True \<notin> set post"
    using post assms(3,4) by auto
  ultimately have "foldl fadd pzero data = Infinity False"
    by (subst data) (simp add: foldl_fadd_PInf)
  then show ?thesis
    by (simp add: example_cpp_function_fold fmul_pos_PInf [OF assms(1)])
qed

theorem plus_infinity_returned_witness:
  "0 < sint (2 :: 32 word) \<and>
   Infinity False \<in> set [double_of_int (- 1), Infinity False, double_of_int 5] \<and>
   Infinity True \<notin> set [double_of_int (- 1), Infinity False, double_of_int 5] \<and>
   NaN \<notin> set [double_of_int (- 1), Infinity False, double_of_int 5] \<and>
   foldl fadd pzero (takeWhile (\<lambda>x. x \<noteq> Infinity False)
       [double_of_int (- 1), Infinity False, double_of_int 5]) \<noteq> Infinity True \<and>
   example_cpp_function 2 [double_of_int (- 1), Infinity False, double_of_int 5] =
     Some (Infinity False)"
proof -
  let ?data = "[double_of_int (- 1), Infinity False, double_of_int 5]"
  have h1: "0 < sint (2 :: 32 word)" by simp
  have h2: "Infinity False \<in> set ?data" by simp
  have h3: "Infinity True \<notin> set ?data" by (simp add: double_of_int_exact)
  have h4: "NaN \<notin> set ?data" by (simp add: double_of_int_exact)
  have h5: "foldl fadd pzero (takeWhile (\<lambda>x. x \<noteq> Infinity False) ?data) \<noteq> Infinity True"
    using round_result_small [of 1 1074 True] by (simp add: double_of_int_exact pzero_def)
  show ?thesis
    using h1 h2 h3 h4 h5 plus_infinity_returned [OF h1 h2 h3 h4 h5] by (intro conjI)
qed

text \<open>
  C7. The multiplier parameter accepts every representable signed integer, that is every
  integer of the type \<open>int\<close>, from \<open>-2^31\<close> to \<open>2^31 - 1\<close>, with no range
  restriction inside the type: for each such \<open>m\<close> and every vector, the parameter holds
  \<open>m\<close> itself, the function is defined and it returns the contracted result.
\<close>

theorem int_multiplier_accepted:
  assumes "- (2 ^ 31) \<le> m" and "m < 2 ^ 31"
  shows "sint (word_of_int m :: 32 word) = m \<and>
         example_cpp_function (word_of_int m) data = Some (scale_sum m data)"
proof -
  have "sint (word_of_int m :: 32 word) = m"
    using assms by (simp add: sint_sbintrunc' signed_take_bit_int_eq_self)
  moreover from this
  have "example_cpp_function (word_of_int m) data = Some (scale_sum m data)"
    by (simp add: example_cpp_function_fold scale_sum_def static_cast_double_def)
  ultimately show ?thesis ..
qed

theorem int_multiplier_accepted_witness:
  "- (2 ^ 31) \<le> (- 2147483648 :: int) \<and> (- 2147483648 :: int) < 2 ^ 31 \<and>
   sint (word_of_int (- 2147483648) :: 32 word) = - 2147483648 \<and>
   example_cpp_function (word_of_int (- 2147483648)) [DBL_MAX, NaN] =
     Some (scale_sum (- 2147483648) [DBL_MAX, NaN])"
proof -
  have h1: "- (2 ^ 31) \<le> (- 2147483648 :: int)" by simp
  have h2: "(- 2147483648 :: int) < 2 ^ 31" by simp
  show ?thesis
    using h1 h2 int_multiplier_accepted [OF h1 h2, of "[DBL_MAX, NaN]"]
    by (intro conjI) simp_all
qed

text \<open>
  C9. Totality: for every \<open>int\<close> multiplier and every vector of doubles the loop of
  \<open>std::accumulate\<close> from \<open>begin()\<close> to \<open>end()\<close> terminates with a sum, and the function
  returns a double; no path fails to produce a value.
\<close>

theorem example_cpp_function_total:
  "(\<exists>s. accumulate data 0 (length data) pzero = Some s) \<and>
   (\<exists>d. example_cpp_function input data = Some d)"
  using accumulate_from [of 0 data pzero] by (simp add: example_cpp_function_def)

text \<open>
  C10. Finite inputs do not guarantee a finite result: with the multiplier 1 and the two
  finite elements \<open>DBL_MAX, DBL_MAX\<close> the running sum overflows and the result is
  \<open>+Infinity\<close>.
\<close>

theorem finite_inputs_overflow:
  "is_binary64 DBL_MAX \<and> is_finite DBL_MAX \<and>
   example_cpp_function 1 [DBL_MAX, DBL_MAX] = Some (Infinity False)"
  using DBL_MAX_binary64
  by (simp add: example_cpp_function_fold DBL_MAX_def fadd_pzero_DBL_MAX fadd_DBL_MAX_twice
      static_cast_double_exact del: fadd.simps(7))

end
